theory Spec2Isabelle
  imports Complex_Main
begin

section \<open>Discrete stepwise optimiser (optimize.hpp)\<close>

text \<open>
  A shallow embedding of \<^verbatim>\<open>state_reconstruction_cpp/include/optimize.hpp\<close>:
  the key comparator \<^verbatim>\<open>EigenVectorXfCompare\<close>, \<^verbatim>\<open>minimize_discrete_stepwise_cpp\<close>
  and \<^verbatim>\<open>maximize_discrete_stepwise_cpp\<close>.

  Numbers. An objective value is a \<^verbatim>\<open>float\<close> whose special values steer the control
  flow (the scan starts from \<^verbatim>\<open>__FLT_MAX__\<close> and a comparison with NaN is false), so it
  is the datatype \<open>flt\<close> below. A coordinate of a point or of a step is a finite
  \<^verbatim>\<open>float\<close>, modelled as the real number it denotes. The sum of a lattice row and the
  current point (line 106) is rounded to binary32 as the processor rounds it, to the
  nearest value with ties to even. The product of a step and an integer level (line 97)
  is taken exactly; in binary32 it is exact for the levels -2 to 2. NaN and infinite
  coordinates are outside the model. The sizes of the lattice are machine integers;
  their conversions are written out.

  Library code. The cache is a \<^verbatim>\<open>std::map\<close> ordered by the comparator, modelled as an
  association list searched with the comparator. The vectors and matrices are Eigen's:
  a row access outside the matrix and a sum of vectors of different sizes stop the
  program on Eigen's assertions, and \<^verbatim>\<open>isZero()\<close> compares with Eigen's default
  precision. These stops, like the comparator's own assertion, are error values of the
  model. Running out of memory is not modelled.
\<close>

subsection \<open>Float values of the objective\<close>

datatype flt = NaN | MInf | Fin real | PInf

text \<open>The C++ comparison \<^verbatim>\<open>a < b\<close> on floats: false as soon as one side is NaN.\<close>

fun flt_less :: "flt \<Rightarrow> flt \<Rightarrow> bool" where
  "flt_less NaN b = False"
| "flt_less a NaN = False"
| "flt_less MInf MInf = False"
| "flt_less MInf b = True"
| "flt_less (Fin a) (Fin b) = (a < b)"
| "flt_less (Fin a) PInf = True"
| "flt_less (Fin a) MInf = False"
| "flt_less PInf b = False"

text \<open>Unary minus, as in the adapter of \<^verbatim>\<open>maximize_discrete_stepwise_cpp\<close>.\<close>

fun fneg :: "flt \<Rightarrow> flt" where
  "fneg NaN = NaN"
| "fneg MInf = PInf"
| "fneg (Fin a) = Fin (- a)"
| "fneg PInf = MInf"

text \<open>\<^verbatim>\<open>__FLT_MAX__\<close>, the largest finite binary32 value, \<open>2^128 - 2^104\<close>.\<close>

definition FLT_MAX :: flt where
  "FLT_MAX = Fin (2 ^ 128 - 2 ^ 104)"

subsection \<open>Errors and state\<close>

text \<open>
  \<open>NonConvergence x\<close> is the \<^verbatim>\<open>std::invalid_argument\<close> thrown at the end of the
  minimiser, whose message carries the current point \<open>x\<close>. The other errors are the
  places where the program stops on an assertion or leaves defined behaviour:
  \<open>KeySizeMismatch\<close> is the \<^verbatim>\<open>assert(a.size()==b.size())\<close> of the comparator,
  \<open>SizeMismatch\<close> the addition of a point to lattice rows of another length,
  \<open>IndexOutOfRange\<close> the row access \<^verbatim>\<open>xMg.row(idxMin)\<close> with \<^verbatim>\<open>idxMin = -1\<close>, and
  \<open>IntegerOverflow\<close> a lattice size that does not fit \<^verbatim>\<open>int\<close> or \<^verbatim>\<open>size_t\<close>.
\<close>

datatype error =
    NonConvergence "real list"
  | KeySizeMismatch
  | SizeMismatch
  | IndexOutOfRange
  | IntegerOverflow

text \<open>
  The cache \<^verbatim>\<open>std::map<Eigen::VectorXf,float,EigenVectorXfCompare>\<close> is an association
  list; the program passes it by reference, the model passes it in and out. The field
  \<open>evaluations\<close> is a log, not program state: it records, in order, each point at
  which the objective function was called.
\<close>

type_synonym cache = "(real list \<times> flt) list"

record state =
  results_cache :: cache
  evaluations :: "real list list"

subsection \<open>The comparator and cache lookups\<close>

text \<open>Lines 11 to 16 of the comparator: the lexicographic scan of two vectors of one size.\<close>

fun lex_less :: "real list \<Rightarrow> real list \<Rightarrow> bool" where
  "lex_less (a # as) (b # bs) =
     (if a < b then True else if a > b then False else lex_less as bs)"
| "lex_less as bs = False"

definition EigenVectorXfCompare :: "real list \<Rightarrow> real list \<Rightarrow> error + bool" where
  "EigenVectorXfCompare a b =
     (if length a \<noteq> length b then Inl KeySizeMismatch else Inr (lex_less a b))"

text \<open>
  A lookup in the map finds the entry whose key is equivalent to the searched key,
  that is, neither is less than the other under the comparator. The walk compares
  the searched key with stored keys and stops on the comparator's assertion.
\<close>

fun cache_find :: "cache \<Rightarrow> real list \<Rightarrow> error + flt option" where
  "cache_find [] key = Inr None"
| "cache_find ((k, v) # rest) key =
     (case EigenVectorXfCompare k key of
        Inl e \<Rightarrow> Inl e
      | Inr lt \<Rightarrow>
          (case EigenVectorXfCompare key k of
             Inl e \<Rightarrow> Inl e
           | Inr gt \<Rightarrow> if \<not> lt \<and> \<not> gt then Inr (Some v) else cache_find rest key))"

subsection \<open>Parameter parsing (lines 65 to 83)\<close>

definition parse_parameters :: "real list \<Rightarrow> real list \<Rightarrow> real list \<times> real list" where
  "parse_parameters x dx =
     (if length x = 1 \<and> length dx > 0 then (replicate (length dx) (x ! 0), dx)
      else if length dx = 1 \<and> length x > 0 then (x, replicate (length x) (dx ! 0))
      else (x, dx))"

subsection \<open>The neighbour lattice \<^verbatim>\<open>dxArMg\<close> (lines 85 to 99)\<close>

definition INT_MAX :: int where
  "INT_MAX = 2 ^ 31 - 1"

text \<open>\<^verbatim>\<open>size_t sizeMg = std::pow(2 * search_range + 1, dx.size())\<close>\<close>

definition sizeMg :: "int \<Rightarrow> nat \<Rightarrow> nat" where
  "sizeMg search_range d = nat ((2 * search_range + 1) ^ d)"

text \<open>\<^verbatim>\<open>ranges.push_back(std::pow(2 * search_range + 1, dx.size() - j - 1))\<close>\<close>

definition ranges :: "int \<Rightarrow> nat \<Rightarrow> int list" where
  "ranges search_range d = map (\<lambda>j. (2 * search_range + 1) ^ (d - j - 1)) [0..<d]"

text \<open>
  The sizes are computed in \<^verbatim>\<open>int\<close> and \<^verbatim>\<open>size_t\<close>: \<^verbatim>\<open>2 * search_range + 1\<close> and
  \<^verbatim>\<open>ranges[j] * (2 * search_range + 1)\<close> are \<^verbatim>\<open>int\<close> products, and the power is
  converted to \<^verbatim>\<open>size_t\<close>. Outside the range below the program overflows a signed
  integer or converts a negative number to an unsigned one.
\<close>

definition sizes_representable :: "int \<Rightarrow> nat \<Rightarrow> bool" where
  "sizes_representable search_range d \<longleftrightarrow>
     - (2 ^ 30) \<le> search_range \<and> search_range < 2 ^ 30 \<and>
     0 < (2 * search_range + 1) ^ d \<and> (2 * search_range + 1) ^ d \<le> INT_MAX"

text \<open>Conversions of an integer to \<^verbatim>\<open>size_t\<close> (64 bits, unsigned) and to \<^verbatim>\<open>int\<close>.\<close>

definition to_size_t :: "int \<Rightarrow> int" where
  "to_size_t v = take_bit 64 v"

definition to_int :: "int \<Rightarrow> int" where
  "to_int v = signed_take_bit 31 v"

text \<open>
  \<^verbatim>\<open>int searchRangeValue = i % (ranges[j] * (2 * search_range + 1)) / ranges[j] - search_range;\<close>
  Since \<^verbatim>\<open>i\<close> is a \<^verbatim>\<open>size_t\<close>, the \<^verbatim>\<open>int\<close> operands are converted to \<^verbatim>\<open>size_t\<close> and the
  subtraction wraps around before the result is converted back to \<^verbatim>\<open>int\<close>.
\<close>

definition searchRangeValue :: "nat \<Rightarrow> int \<Rightarrow> int \<Rightarrow> int" where
  "searchRangeValue i r search_range =
     to_int (to_size_t
       ((int i mod to_size_t (r * (2 * search_range + 1))) div to_size_t r
          - to_size_t search_range))"

text \<open>\<^verbatim>\<open>dxArMg(i, j) = dx[j] * searchRangeValue\<close>, a matrix of \<^verbatim>\<open>sizeMg\<close> rows.\<close>

definition dxArMg :: "real list \<Rightarrow> int \<Rightarrow> real list list" where
  "dxArMg dx search_range =
     map (\<lambda>i. map (\<lambda>j. dx ! j *
                 real_of_int (searchRangeValue i (ranges search_range (length dx) ! j) search_range))
               [0..<length dx])
         [0..<sizeMg search_range (length dx)]"

subsection \<open>One iteration (lines 104 to 134)\<close>

text \<open>
  Lines 112 to 121: the value of the objective at \<open>key\<close>, from the cache when the key
  is there, from the function otherwise, and then stored.
\<close>

definition evaluate :: "(real list \<Rightarrow> flt) \<Rightarrow> state \<Rightarrow> real list \<Rightarrow> (error + flt) \<times> state" where
  "evaluate fun st key =
     (case cache_find (results_cache st) key of
        Inl e \<Rightarrow> (Inl e, st)
      | Inr None \<Rightarrow>
          (Inr (fun key),
           st\<lparr>results_cache := (key, fun key) # results_cache st,
              evaluations := evaluations st @ [key]\<rparr>)
      | Inr (Some result) \<Rightarrow> (Inr result, st))"

text \<open>
  Lines 109 to 127: the scan over the candidate rows, from index \<open>idx\<close> on, keeping
  the smallest result so far in \<open>resMin\<close> and its index in \<open>idxMin\<close>.
\<close>

fun scan :: "(real list \<Rightarrow> flt) \<Rightarrow> real list list \<Rightarrow> nat \<Rightarrow> state \<Rightarrow> flt \<Rightarrow> int
    \<Rightarrow> (error + flt \<times> int) \<times> state" where
  "scan fun [] idx st resMin idxMin = (Inr (resMin, idxMin), st)"
| "scan fun (key # keys) idx st resMin idxMin =
     (case evaluate fun st key of
        (Inl e, st') \<Rightarrow> (Inl e, st')
      | (Inr result, st') \<Rightarrow>
          if flt_less result resMin then scan fun keys (Suc idx) st' result (int idx)
          else scan fun keys (Suc idx) st' resMin idxMin)"

text \<open>
  \<^verbatim>\<open>isZero()\<close> of Eigen, with its default precision: a vector is zero when every
  coefficient \<open>c\<close> has \<^verbatim>\<open>abs(c) <= abs(1) * prec\<close>, where \<^verbatim>\<open>prec\<close> is
  \<^verbatim>\<open>NumTraits<float>::dummy_precision()\<close>, the binary32 number nearest to \<open>10^-5\<close>.
\<close>

definition dummy_precision :: real where
  "dummy_precision = 10995116 / 2 ^ 40"

definition isZero :: "real list \<Rightarrow> bool" where
  "isZero row = list_all (\<lambda>c. \<bar>c\<bar> \<le> \<bar>1\<bar> * dummy_precision) row"

text \<open>
  Addition of two \<^verbatim>\<open>float\<close> values. The exponent of a real number \<open>a\<close> in binary32 is
  the greatest \<open>e\<close> with \<open>2^e \<le> |a|\<close>, kept between -126 (below it the numbers are
  subnormal) and 127. It is found by doubling from 1 or halving from 1/2; \<open>p\<close> is \<open>2^e\<close>.
\<close>

fun exponent_up :: "nat \<Rightarrow> int \<Rightarrow> real \<Rightarrow> real \<Rightarrow> int" where
  "exponent_up 0 e p a = e"
| "exponent_up (Suc n) e p a = (if 2 * p \<le> a then exponent_up n (e + 1) (2 * p) a else e)"

fun exponent_down :: "nat \<Rightarrow> int \<Rightarrow> real \<Rightarrow> real \<Rightarrow> int" where
  "exponent_down 0 e p a = e"
| "exponent_down (Suc n) e p a = (if p \<le> a then e else exponent_down n (e - 1) (p / 2) a)"

definition float_exponent :: "real \<Rightarrow> int" where
  "float_exponent a =
     (if 1 \<le> \<bar>a\<bar> then exponent_up 127 0 1 \<bar>a\<bar>
      else if \<bar>a\<bar> < 1 / 2 ^ 126 then - 126
      else exponent_down 125 (- 1) (1 / 2) \<bar>a\<bar>)"

text \<open>The nearest integer, the even one of two that are equally near.\<close>

definition round_half_even :: "real \<Rightarrow> int" where
  "round_half_even q =
     (let n = \<lfloor>q\<rfloor>; r = q - of_int n
      in if r < 1 / 2 then n else if 1 / 2 < r then n + 1 else if even n then n else n + 1)"

text \<open>
  A binary32 number has 24 significant bits, so its neighbours are \<open>2^(e-23)\<close> apart.
  A result beyond \<^verbatim>\<open>__FLT_MAX__\<close> would be infinite and is outside the model.
\<close>

definition round_binary32 :: "real \<Rightarrow> real" where
  "round_binary32 a =
     (let ulp = 2 powi (float_exponent a - 23)
      in of_int (round_half_even (a / ulp)) * ulp)"

definition float_add :: "real \<Rightarrow> real \<Rightarrow> real" where
  "float_add a b = round_binary32 (a + b)"

text \<open>\<^verbatim>\<open>Eigen::MatrixXf xMg = dxArMg.rowwise() + x.transpose()\<close>\<close>

definition xMg :: "real list list \<Rightarrow> real list \<Rightarrow> real list list" where
  "xMg dxAr x = map (\<lambda>row. map2 float_add row x) dxAr"

text \<open>
  Lines 105 to 128 of the loop body: the scan over all candidates and the index of
  the selected one. The row accesses \<^verbatim>\<open>xMg.row(idxMin)\<close> and \<^verbatim>\<open>dxArMg.row(idxMin)\<close>
  need \<^verbatim>\<open>0 <= idxMin < sizeMg\<close>.
\<close>

definition iteration :: "(real list \<Rightarrow> flt) \<Rightarrow> real list list \<Rightarrow> real list \<Rightarrow> state
    \<Rightarrow> (error + nat) \<times> state" where
  "iteration fun dxAr x st =
     (if \<not> list_all (\<lambda>row. length row = length x) dxAr then (Inl SizeMismatch, st)
      else
        (case scan fun (xMg dxAr x) 0 st FLT_MAX (- 1) of
           (Inl e, st') \<Rightarrow> (Inl e, st')
         | (Inr (resMin, idxMin), st') \<Rightarrow>
             if idxMin < 0 \<or> int (length dxAr) \<le> idxMin then (Inl IndexOutOfRange, st')
             else (Inr (nat idxMin), st')))"

subsection \<open>The descent loop and the two entry points\<close>

text \<open>
  Lines 101 to 141, with the number of iterations left as the recursion argument:
  the selected candidate becomes the current point, the loop breaks when the
  selected offset row passes \<^verbatim>\<open>isZero()\<close>, and when no iteration is left the loop
  ends unconverged and the function throws.
\<close>

fun descent :: "(real list \<Rightarrow> flt) \<Rightarrow> real list list \<Rightarrow> nat \<Rightarrow> real list \<Rightarrow> state
    \<Rightarrow> (error + real list) \<times> state" where
  "descent fun dxAr 0 x st = (Inl (NonConvergence x), st)"
| "descent fun dxAr (Suc n) x st =
     (case iteration fun dxAr x st of
        (Inl e, st') \<Rightarrow> (Inl e, st')
      | (Inr idxMin, st') \<Rightarrow>
          if isZero (dxAr ! idxMin) then (Inr (xMg dxAr x ! idxMin), st')
          else descent fun dxAr n (xMg dxAr x ! idxMin) st')"

definition minimize_discrete_stepwise_cpp ::
  "(real list \<Rightarrow> flt) \<Rightarrow> real list \<Rightarrow> state \<Rightarrow> real list \<Rightarrow> int \<Rightarrow> int
    \<Rightarrow> (error + real list) \<times> state" where
  "minimize_discrete_stepwise_cpp fun x st dx search_range maxiter =
     (case parse_parameters x dx of
        (x1, dx1) \<Rightarrow>
          if \<not> sizes_representable search_range (length dx1) then (Inl IntegerOverflow, st)
          else descent fun (dxArMg dx1 search_range) (nat maxiter) x1 st)"

definition maximize_discrete_stepwise_cpp ::
  "(real list \<Rightarrow> flt) \<Rightarrow> real list \<Rightarrow> state \<Rightarrow> real list \<Rightarrow> int \<Rightarrow> int
    \<Rightarrow> (error + real list) \<times> state" where
  "maximize_discrete_stepwise_cpp fun x st dx search_range maxiter =
     minimize_discrete_stepwise_cpp (\<lambda>a. fneg (fun a)) x st dx search_range maxiter"

subsection \<open>Notions used in the statements\<close>

text \<open>
  The selection of lines 122 to 126 on a list of results: the scan of \<open>scan\<close> without
  the cache.
\<close>

fun select :: "flt list \<Rightarrow> nat \<Rightarrow> flt \<Rightarrow> int \<Rightarrow> flt \<times> int" where
  "select [] idx resMin idxMin = (resMin, idxMin)"
| "select (r # rs) idx resMin idxMin =
     (if flt_less r resMin then select rs (Suc idx) r (int idx)
      else select rs (Suc idx) resMin idxMin)"

text \<open>
  How a state can change: new points \<open>more\<close>, pairwise different and absent from the
  cache before, were evaluated in this order, and each was stored with its value.
\<close>

definition grows :: "(real list \<Rightarrow> flt) \<Rightarrow> state \<Rightarrow> state \<Rightarrow> bool" where
  "grows fun st st' \<longleftrightarrow>
     (\<exists>more. distinct more \<and> (\<forall>k\<in>set more. map_of (results_cache st) k = None) \<and>
        results_cache st' = rev (map (\<lambda>k. (k, fun k)) more) @ results_cache st \<and>
        evaluations st' = evaluations st @ more)"

text \<open>The value the program works with at a point: the cached one, else the computed one.\<close>

definition value_at :: "(real list \<Rightarrow> flt) \<Rightarrow> cache \<Rightarrow> real list \<Rightarrow> flt" where
  "value_at fun c key = (case map_of c key of Some v \<Rightarrow> v | None \<Rightarrow> fun key)"

text \<open>A sequence of calls of the two entry points on one cache.\<close>

datatype call =
    Minimize "real list \<Rightarrow> flt" "real list" "real list" int int
  | Maximize "real list \<Rightarrow> flt" "real list" "real list" int int

fun run_calls :: "call list \<Rightarrow> state \<Rightarrow> state" where
  "run_calls [] st = st"
| "run_calls (Minimize f x dx search_range maxiter # cs) st =
     run_calls cs (snd (minimize_discrete_stepwise_cpp f x st dx search_range maxiter))"
| "run_calls (Maximize f x dx search_range maxiter # cs) st =
     run_calls cs (snd (maximize_discrete_stepwise_cpp f x st dx search_range maxiter))"

text \<open>An offset row that is the all-zero vector.\<close>

definition all_zero :: "real list \<Rightarrow> bool" where
  "all_zero row = list_all (\<lambda>c. c = 0) row"

text \<open>
  A run of \<open>n\<close> iterations none of which converges: each iteration completes and
  selects a candidate whose offset row is not the all-zero vector, and the candidate
  becomes the current point. The result is the point and the state reached.
\<close>

fun unconverged :: "(real list \<Rightarrow> flt) \<Rightarrow> real list list \<Rightarrow> nat \<Rightarrow> real list \<Rightarrow> state
    \<Rightarrow> (real list \<times> state) option" where
  "unconverged fun dxAr 0 x st = Some (x, st)"
| "unconverged fun dxAr (Suc n) x st =
     (case iteration fun dxAr x st of
        (Inl e, st') \<Rightarrow> None
      | (Inr idxMin, st') \<Rightarrow>
          if all_zero (dxAr ! idxMin) then None
          else unconverged fun dxAr n (xMg dxAr x ! idxMin) st')"

subsection \<open>Example inputs\<close>

definition empty_state :: state where
  "empty_state = \<lparr>results_cache = [], evaluations = []\<rparr>"

text \<open>A cache that already holds the value 100 for the point \<open>[1]\<close>.\<close>

definition warm_state :: state where
  "warm_state = \<lparr>results_cache = [([1], Fin 100)], evaluations = []\<rparr>"

text \<open>Objectives of the first coordinate: \<open>x[0]\<close>, \<open>-x[0]\<close>, \<open>(x[0] - 2)^2\<close>, and two constants.\<close>

definition first_coordinate :: "real list \<Rightarrow> flt" where
  "first_coordinate x = Fin (x ! 0)"

definition descending :: "real list \<Rightarrow> flt" where
  "descending x = Fin (- (x ! 0))"

definition parabola :: "real list \<Rightarrow> flt" where
  "parabola x = Fin ((x ! 0 - 2) ^ 2)"





definition far_parabola :: "real list \<Rightarrow> flt" where
  "far_parabola x = Fin ((x ! 0 - 2 ^ 25) ^ 2)"

section \<open>Properties\<close>

subsection \<open>Comparisons and cache lookups\<close>

lemma flt_less_irrefl: "\<not> flt_less a a"
  by (cases a) simp_all

lemma flt_less_trans: "flt_less a b \<Longrightarrow> flt_less b c \<Longrightarrow> flt_less a c"
  by (cases a; cases b; cases c) simp_all

lemma flt_less_asym: "flt_less a b \<Longrightarrow> \<not> flt_less b a"
  using flt_less_irrefl flt_less_trans by blast



lemma lex_less_equiv:
  "length a = length b \<Longrightarrow> \<not> lex_less a b \<and> \<not> lex_less b a \<longleftrightarrow> a = b"
proof (induction a b rule: list_induct2)
  case Nil
  show ?case by simp
next
  case (Cons x xs y ys)
  then show ?case by (auto split: if_splits)
qed

lemma cache_find_map_of: "cache_find c key = Inr r \<Longrightarrow> r = map_of c key"
proof (induction c)
  case Nil
  then show ?case by simp
next
  case (Cons kv c)
  obtain k v where kv: "kv = (k, v)" by (cases kv)
  show ?case
  proof (cases "length k = length key")
    case False
    with Cons.prems kv show ?thesis by (simp add: EigenVectorXfCompare_def)
  next
    case True
    note len = this
    show ?thesis
    proof (cases "k = key")
      case True
      with Cons.prems kv show ?thesis
        by (simp add: EigenVectorXfCompare_def lex_less_equiv [of key key, simplified])
    next
      case False
      with len lex_less_equiv [of k key] have "\<not> (\<not> lex_less k key \<and> \<not> lex_less key k)"
        by simp
      with Cons.prems kv len have "cache_find c key = Inr r"
        by (auto simp: EigenVectorXfCompare_def split: if_splits)
      with Cons.IH False kv show ?thesis by simp
    qed
  qed
qed

lemma cache_find_error: "cache_find c key = Inl e \<Longrightarrow> e = KeySizeMismatch"
  by (induction c) (auto simp: EigenVectorXfCompare_def split: if_splits)


subsection \<open>Growth of the cache\<close>

lemma grows_refl: "grows fun st st"
  unfolding grows_def by (rule exI [of _ "[]"]) simp

lemma grows_trans:
  assumes "grows fun st st1" and "grows fun st1 st2"
  shows "grows fun st st2"
proof -
  from assms(1) obtain m1 where m1: "distinct m1"
      "\<forall>k\<in>set m1. map_of (results_cache st) k = None"
      "results_cache st1 = rev (map (\<lambda>k. (k, fun k)) m1) @ results_cache st"
      "evaluations st1 = evaluations st @ m1"
    unfolding grows_def by blast
  from assms(2) obtain m2 where m2: "distinct m2"
      "\<forall>k\<in>set m2. map_of (results_cache st1) k = None"
      "results_cache st2 = rev (map (\<lambda>k. (k, fun k)) m2) @ results_cache st1"
      "evaluations st2 = evaluations st1 @ m2"
    unfolding grows_def by blast
  have absent: "k \<notin> set m1 \<and> map_of (results_cache st) k = None" if "k \<in> set m2" for k
  proof -
    from m2(2) that have "map_of (results_cache st1) k = None" by blast
    then have "k \<notin> fst ` set (results_cache st1)" by (simp add: map_of_eq_None_iff)
    with m1(3) have "k \<notin> set m1" and "k \<notin> fst ` set (results_cache st)"
      by (auto simp: image_Un image_image)
    then show ?thesis by (simp add: map_of_eq_None_iff)
  qed
  have "distinct (m1 @ m2)" using m1(1) m2(1) absent by auto
  moreover have "\<forall>k\<in>set (m1 @ m2). map_of (results_cache st) k = None"
    using m1(2) absent by auto
  moreover have "results_cache st2 = rev (map (\<lambda>k. (k, fun k)) (m1 @ m2)) @ results_cache st"
    using m1(3) m2(3) by simp
  moreover have "evaluations st2 = evaluations st @ (m1 @ m2)"
    using m1(4) m2(4) by simp
  ultimately show ?thesis unfolding grows_def by blast
qed

lemma map_of_graph:
  "map_of (rev (map (\<lambda>k. (k, f k)) m)) k = (if k \<in> set m then Some (f k) else None)"
  by (induction m) (auto simp: map_add_def split: option.splits)

lemma grows_lookup:
  assumes "grows fun st st'" and "map_of (results_cache st') k = Some v"
  shows "v = value_at fun (results_cache st) k"
proof -
  from assms(1) obtain m where m: "\<forall>k\<in>set m. map_of (results_cache st) k = None"
      "results_cache st' = rev (map (\<lambda>k. (k, fun k)) m) @ results_cache st"
    unfolding grows_def by blast
  show ?thesis
  proof (cases "k \<in> set m")
    case True
    then have "map_of (rev (map (\<lambda>k. (k, fun k)) m)) k = Some (fun k)"
      by (simp add: map_of_graph)
    with assms(2) m True show ?thesis
      by (simp add: map_add_def value_at_def)
  next
    case False
    then have "map_of (rev (map (\<lambda>k. (k, fun k)) m)) k = None"
      by (simp add: map_of_graph)
    with assms(2) m show ?thesis
      by (simp add: map_add_def value_at_def)
  qed
qed

lemma grows_keeps:
  assumes "grows fun st st'" and "map_of (results_cache st) k = Some v"
  shows "map_of (results_cache st') k = Some v"
proof -
  from assms(1) obtain m where m: "\<forall>k\<in>set m. map_of (results_cache st) k = None"
      "results_cache st' = rev (map (\<lambda>k. (k, fun k)) m) @ results_cache st"
    unfolding grows_def by blast
  from m(1) assms(2) have "k \<notin> set m" by auto
  then have "map_of (rev (map (\<lambda>k. (k, fun k)) m)) k = None"
    by (simp add: map_of_graph)
  with assms(2) m(2) show ?thesis by (simp add: map_add_def)
qed

subsection \<open>Evaluating one candidate\<close>

lemma evaluate_grows: "evaluate fun st key = (r, st') \<Longrightarrow> grows fun st st'"
proof -
  assume ev: "evaluate fun st key = (r, st')"
  show ?thesis
  proof (cases "cache_find (results_cache st) key")
    case (Inl e)
    with ev have "st' = st" by (simp add: evaluate_def)
    then show ?thesis by (simp add: grows_refl)
  next
    case (Inr found)
    show ?thesis
    proof (cases found)
      case None
      with Inr have absent: "map_of (results_cache st) key = None"
        using cache_find_map_of by fastforce
      from None Inr ev have "st' = st\<lparr>results_cache := (key, fun key) # results_cache st,
          evaluations := evaluations st @ [key]\<rparr>"
        by (simp add: evaluate_def)
      with absent show ?thesis
        unfolding grows_def by (intro exI [of _ "[key]"]) simp
    next
      case (Some v)
      with Inr ev have "st' = st" by (simp add: evaluate_def)
      then show ?thesis by (simp add: grows_refl)
    qed
  qed
qed

lemma evaluate_stored:
  "evaluate fun st key = (Inr result, st') \<Longrightarrow> map_of (results_cache st') key = Some result"
  by (auto simp: evaluate_def split: sum.splits option.splits dest: cache_find_map_of)

lemma evaluate_error: "evaluate fun st key = (Inl e, st') \<Longrightarrow> e = KeySizeMismatch"
  by (auto simp: evaluate_def split: sum.splits option.splits dest: cache_find_error)



subsection \<open>The scan over the candidates\<close>

lemma scan_grows:
  "scan fun keys idx st resMin idxMin = (r, st') \<Longrightarrow> grows fun st st'"
proof (induction keys arbitrary: idx st resMin idxMin)
  case Nil
  then show ?case by (simp add: grows_refl)
next
  case (Cons key keys)
  obtain r1 st1 where ev: "evaluate fun st key = (r1, st1)" by (cases "evaluate fun st key")
  then have g1: "grows fun st st1" by (rule evaluate_grows)
  show ?case
  proof (cases r1)
    case (Inl e)
    with Cons.prems ev have "st' = st1" by simp
    with g1 show ?thesis by simp
  next
    case (Inr result)
    with Cons.prems ev have
      "scan fun keys (Suc idx) st1 (if flt_less result resMin then result else resMin)
         (if flt_less result resMin then int idx else idxMin) = (r, st')"
      by (simp split: if_splits)
    then have "grows fun st1 st'" by (rule Cons.IH)
    with g1 show ?thesis by (rule grows_trans)
  qed
qed

lemma scan_error:
  "scan fun keys idx st resMin idxMin = (Inl e, st') \<Longrightarrow> e = KeySizeMismatch"
proof (induction keys arbitrary: idx st resMin idxMin)
  case Nil
  then show ?case by simp
next
  case (Cons key keys)
  obtain r1 st1 where ev: "evaluate fun st key = (r1, st1)" by (cases "evaluate fun st key")
  show ?case
  proof (cases r1)
    case (Inl e1)
    with Cons.prems ev show ?thesis by (auto dest: evaluate_error)
  next
    case (Inr result)
    with Cons.prems ev have
      "scan fun keys (Suc idx) st1 (if flt_less result resMin then result else resMin)
         (if flt_less result resMin then int idx else idxMin) = (Inl e, st')"
      by (simp split: if_splits)
    then show ?thesis by (rule Cons.IH)
  qed
qed

lemma scan_select:
  "scan fun keys idx st resMin idxMin = (Inr out, st') \<Longrightarrow>
   (\<forall>k\<in>set keys. \<exists>v. map_of (results_cache st') k = Some v) \<and>
   out = select (map (\<lambda>k. the (map_of (results_cache st') k)) keys) idx resMin idxMin"
proof (induction keys arbitrary: idx st resMin idxMin)
  case Nil
  then show ?case by simp
next
  case (Cons key keys)
  obtain r1 st1 where ev: "evaluate fun st key = (r1, st1)" by (cases "evaluate fun st key")
  show ?case
  proof (cases r1)
    case (Inl e1)
    with Cons.prems ev show ?thesis by simp
  next
    case (Inr result)
    with Cons.prems ev have rest:
      "scan fun keys (Suc idx) st1 (if flt_less result resMin then result else resMin)
         (if flt_less result resMin then int idx else idxMin) = (Inr out, st')"
      by (simp split: if_splits)
    from rest have "grows fun st1 st'" by (rule scan_grows)
    moreover from ev Inr have "map_of (results_cache st1) key = Some result"
      by (simp add: evaluate_stored)
    ultimately have head: "map_of (results_cache st') key = Some result"
      by (rule grows_keeps)
    from Cons.IH [OF rest] head show ?thesis by simp
  qed
qed


lemma evaluate_value:
  assumes "evaluate fun st key = (Inr v, st')"
  shows "v = value_at fun (results_cache st) key \<and>
    (map_of (results_cache st) key \<noteq> None \<longrightarrow> st' = st)"
proof (cases "cache_find (results_cache st) key")
  case (Inl e)
  with assms show ?thesis by (simp add: evaluate_def)
next
  case (Inr found)
  then have "found = map_of (results_cache st) key" by (rule cache_find_map_of)
  with Inr assms show ?thesis
    by (auto simp: evaluate_def value_at_def split: option.splits)
qed

lemma scan_values:
  assumes "scan fun keys idx st resMin idxMin = (Inr out, st')"
  shows "out = select (map (value_at fun (results_cache st)) keys) idx resMin idxMin"
proof -
  from assms have g: "grows fun st st'" by (rule scan_grows)
  from scan_select [OF assms]
  have stored: "\<forall>k\<in>set keys. \<exists>v. map_of (results_cache st') k = Some v"
    and out: "out = select (map (\<lambda>k. the (map_of (results_cache st') k)) keys) idx resMin idxMin"
    by simp_all
  have "map (\<lambda>k. the (map_of (results_cache st') k)) keys =
      map (value_at fun (results_cache st)) keys"
  proof (rule map_cong [OF refl])
    fix k assume "k \<in> set keys"
    with stored obtain v where v: "map_of (results_cache st') k = Some v" by blast
    with g have "v = value_at fun (results_cache st) k" by (rule grows_lookup)
    with v show "the (map_of (results_cache st') k) = value_at fun (results_cache st) k"
      by simp
  qed
  with out show ?thesis by simp
qed

subsection \<open>The selected index\<close>

lemma select_spec:
  "select rs idx resMin idxMin = (m, i) \<Longrightarrow>
   (\<forall>r\<in>set rs. \<not> flt_less r m) \<and>
   (m = resMin \<and> i = idxMin \<or>
    flt_less m resMin \<and> int idx \<le> i \<and> i < int idx + int (length rs) \<and>
    rs ! (nat i - idx) = m \<and> (\<forall>j < nat i - idx. rs ! j \<noteq> m))"
proof (induction rs arbitrary: idx resMin idxMin)
  case Nil
  then show ?case by simp
next
  case (Cons r rs)
  show ?case
  proof (cases "flt_less r resMin")
    case True
    with Cons.prems have sel: "select rs (Suc idx) r (int idx) = (m, i)" by simp
    note ih = Cons.IH [OF sel]
    from ih have none: "\<forall>r'\<in>set rs. \<not> flt_less r' m" by blast
    from ih consider (stay) "m = r" "i = int idx"
      | (later) "flt_less m r" "int (Suc idx) \<le> i" "i < int (Suc idx) + int (length rs)"
          "rs ! (nat i - Suc idx) = m" "\<forall>j < nat i - Suc idx. rs ! j \<noteq> m"
      by blast
    then show ?thesis
    proof cases
      case stay
      with True none show ?thesis by (simp add: flt_less_irrefl)
    next
      case later
      from later(1) True have lt: "flt_less m resMin" by (rule flt_less_trans)
      from later(1) have nr: "\<not> flt_less r m" and ne: "r \<noteq> m"
        using flt_less_asym flt_less_irrefl by blast+
      from later(2) have pos: "nat i - idx = Suc (nat i - Suc idx)" by linarith
      have "\<forall>j < nat i - idx. (r # rs) ! j \<noteq> m"
      proof (intro allI impI)
        fix j assume "j < nat i - idx"
        with pos later(5) ne show "(r # rs) ! j \<noteq> m" by (cases j) auto
      qed
      with lt nr none later pos show ?thesis by auto
    qed
  next
    case False
    with Cons.prems have sel: "select rs (Suc idx) resMin idxMin = (m, i)" by simp
    note ih = Cons.IH [OF sel]
    from ih have none: "\<forall>r'\<in>set rs. \<not> flt_less r' m" by blast
    from ih consider (stay) "m = resMin" "i = idxMin"
      | (later) "flt_less m resMin" "int (Suc idx) \<le> i" "i < int (Suc idx) + int (length rs)"
          "rs ! (nat i - Suc idx) = m" "\<forall>j < nat i - Suc idx. rs ! j \<noteq> m"
      by blast
    then show ?thesis
    proof cases
      case stay
      with False none show ?thesis by simp
    next
      case later
      from later(1) False have nr: "\<not> flt_less r m" and ne: "r \<noteq> m"
        using flt_less_trans by blast+
      from later(2) have pos: "nat i - idx = Suc (nat i - Suc idx)" by linarith
      have "\<forall>j < nat i - idx. (r # rs) ! j \<noteq> m"
      proof (intro allI impI)
        fix j assume "j < nat i - idx"
        with pos later(5) ne show "(r # rs) ! j \<noteq> m" by (cases j) auto
      qed
      with nr none later pos show ?thesis by auto
    qed
  qed
qed

subsection \<open>One iteration and the loop\<close>

lemma iteration_grows: "iteration fun dxAr x st = (r, st') \<Longrightarrow> grows fun st st'"
proof -
  assume it: "iteration fun dxAr x st = (r, st')"
  show ?thesis
  proof (cases "list_all (\<lambda>row. length row = length x) dxAr")
    case False
    with it have "st' = st" by (simp add: iteration_def)
    then show ?thesis by (simp add: grows_refl)
  next
    case True
    obtain r1 st1 where sc: "scan fun (xMg dxAr x) 0 st FLT_MAX (- 1) = (r1, st1)"
      by (cases "scan fun (xMg dxAr x) 0 st FLT_MAX (- 1)")
    with it True have "st' = st1"
      by (auto simp: iteration_def split: sum.splits if_splits)
    with sc show ?thesis by (simp add: scan_grows)
  qed
qed

lemma iteration_selected:
  assumes "iteration fun dxAr x st = (Inr i, st')"
  shows "i < length dxAr \<and> list_all (\<lambda>row. length row = length x) dxAr \<and>
    (\<exists>m. map_of (results_cache st') (xMg dxAr x ! i) = Some m \<and> flt_less m FLT_MAX \<and>
       (\<forall>key\<in>set (xMg dxAr x). \<exists>v. map_of (results_cache st') key = Some v \<and> \<not> flt_less v m) \<and>
       (\<forall>j<i. map_of (results_cache st') (xMg dxAr x ! j) \<noteq> Some m))"
proof -
  let ?keys = "xMg dxAr x"
  let ?rs = "map (\<lambda>k. the (map_of (results_cache st') k)) ?keys"
  from assms have sizes: "list_all (\<lambda>row. length row = length x) dxAr"
    by (auto simp: iteration_def split: if_splits)
  obtain r1 st1 where sc: "scan fun ?keys 0 st FLT_MAX (- 1) = (r1, st1)"
    by (cases "scan fun ?keys 0 st FLT_MAX (- 1)")
  with assms sizes obtain m idxMin where out: "r1 = Inr (m, idxMin)" "st1 = st'"
      "0 \<le> idxMin" "idxMin < int (length dxAr)" "i = nat idxMin"
    by (auto simp: iteration_def split: sum.splits if_splits)
  from sc out have stored: "\<forall>k\<in>set ?keys. \<exists>v. map_of (results_cache st') k = Some v"
    and sel: "select ?rs 0 FLT_MAX (- 1) = (m, idxMin)"
    using scan_select [of "fun" ?keys 0 st FLT_MAX "- 1" "(m, idxMin)" st'] by simp_all
  have len: "length ?keys = length dxAr" by (simp add: xMg_def)
  from select_spec [OF sel] out(3)
  have none: "\<forall>r\<in>set ?rs. \<not> flt_less r m" and lt: "flt_less m FLT_MAX"
    and at: "?rs ! nat idxMin = m" and first: "\<forall>j < nat idxMin. ?rs ! j \<noteq> m"
    by auto
  from out len have i: "i < length ?keys" by simp
  with stored at out(5) have "map_of (results_cache st') (?keys ! i) = Some m"
    by (metis nth_map nth_mem option.sel)
  moreover have "\<forall>key\<in>set ?keys. \<exists>v. map_of (results_cache st') key = Some v \<and> \<not> flt_less v m"
  proof
    fix key assume k: "key \<in> set ?keys"
    with stored obtain v where v: "map_of (results_cache st') key = Some v" by blast
    from k have "the (map_of (results_cache st') key) \<in> set ?rs" by simp
    with none v show "\<exists>v. map_of (results_cache st') key = Some v \<and> \<not> flt_less v m" by auto
  qed
  moreover have "\<forall>j<i. map_of (results_cache st') (?keys ! j) \<noteq> Some m"
  proof (intro allI impI)
    fix j assume j: "j < i"
    with first out(5) have "?rs ! j \<noteq> m" by simp
    moreover from j i have "?rs ! j = the (map_of (results_cache st') (?keys ! j))" by simp
    ultimately show "map_of (results_cache st') (?keys ! j) \<noteq> Some m" by auto
  qed
  ultimately show ?thesis using i len sizes lt by auto
qed

lemma descent_grows: "descent fun dxAr n x st = (r, st') \<Longrightarrow> grows fun st st'"
proof (induction n arbitrary: x st)
  case 0
  then show ?case by (simp add: grows_refl)
next
  case (Suc n)
  obtain r1 st1 where it: "iteration fun dxAr x st = (r1, st1)"
    by (cases "iteration fun dxAr x st")
  then have g1: "grows fun st st1" by (rule iteration_grows)
  show ?case
  proof (cases r1)
    case (Inl e)
    with Suc.prems it g1 show ?thesis by simp
  next
    case (Inr i)
    show ?thesis
    proof (cases "isZero (dxAr ! i)")
      case True
      with Suc.prems it Inr g1 show ?thesis by simp
    next
      case False
      with Suc.prems it Inr have "descent fun dxAr n (xMg dxAr x ! i) st1 = (r, st')" by simp
      then have "grows fun st1 st'" by (rule Suc.IH)
      with g1 show ?thesis by (rule grows_trans)
    qed
  qed
qed

lemma descent_returns:
  "descent fun dxAr n x st = (Inr p, st') \<Longrightarrow>
   \<exists>xl stl i. iteration fun dxAr xl stl = (Inr i, st') \<and> isZero (dxAr ! i) \<and>
     p = xMg dxAr xl ! i"
proof (induction n arbitrary: x st)
  case 0
  then show ?case by simp
next
  case (Suc n)
  obtain r1 st1 where it: "iteration fun dxAr x st = (r1, st1)"
    by (cases "iteration fun dxAr x st")
  show ?case
  proof (cases r1)
    case (Inl e)
    with Suc.prems it show ?thesis by simp
  next
    case (Inr i)
    show ?thesis
    proof (cases "isZero (dxAr ! i)")
      case True
      with Suc.prems it Inr have "st' = st1" "p = xMg dxAr x ! i" by simp_all
      with it Inr True show ?thesis by blast
    next
      case False
      with Suc.prems it Inr have "descent fun dxAr n (xMg dxAr x ! i) st1 = (Inr p, st')" by simp
      then show ?thesis by (rule Suc.IH)
    qed
  qed
qed

lemma minimize_grows:
  "minimize_discrete_stepwise_cpp fun x st dx search_range maxiter = (r, st') \<Longrightarrow>
   grows fun st st'"
  by (auto simp: minimize_discrete_stepwise_cpp_def grows_refl
      split: prod.splits if_splits dest: descent_grows)

subsection \<open>The cache across calls\<close>

lemma maximize_grows:
  "maximize_discrete_stepwise_cpp fun x st dx search_range maxiter = (r, st') \<Longrightarrow>
   grows (\<lambda>a. fneg (fun a)) st st'"
  unfolding maximize_discrete_stepwise_cpp_def by (rule minimize_grows)

lemma grows_log:
  assumes "grows g st st'"
    and "distinct (evaluations st)" and "set (evaluations st) \<subseteq> fst ` set (results_cache st)"
  shows "distinct (evaluations st') \<and> set (evaluations st') \<subseteq> fst ` set (results_cache st')"
proof -
  from assms(1) obtain m where m: "distinct m"
      "\<forall>k\<in>set m. map_of (results_cache st) k = None"
      "results_cache st' = rev (map (\<lambda>k. (k, g k)) m) @ results_cache st"
      "evaluations st' = evaluations st @ m"
    unfolding grows_def by blast
  from m(2) have "\<forall>k\<in>set m. k \<notin> fst ` set (results_cache st)"
    by (simp add: map_of_eq_None_iff)
  with assms(3) have "set (evaluations st) \<inter> set m = {}" by auto
  with assms(2) m(1) m(4) have "distinct (evaluations st')" by simp
  moreover from assms(3) m(3) m(4)
  have "set (evaluations st') \<subseteq> fst ` set (results_cache st')"
    by (auto simp: image_Un image_image)
  ultimately show ?thesis by simp
qed

lemma run_calls_log:
  "distinct (evaluations st) \<Longrightarrow> set (evaluations st) \<subseteq> fst ` set (results_cache st) \<Longrightarrow>
   distinct (evaluations (run_calls cs st)) \<and>
   set (evaluations (run_calls cs st)) \<subseteq> fst ` set (results_cache (run_calls cs st))"
proof (induction cs arbitrary: st)
  case Nil
  then show ?case by simp
next
  case (Cons c cs)
  show ?case
  proof (cases c)
    case (Minimize f x dx k n)
    let ?st1 = "snd (minimize_discrete_stepwise_cpp f x st dx k n)"
    have "grows f st ?st1" by (rule minimize_grows [OF prod.collapse [symmetric]])
    from grows_log [OF this Cons.prems]
    have "distinct (evaluations ?st1) \<and> set (evaluations ?st1) \<subseteq> fst ` set (results_cache ?st1)" .
    then show ?thesis using Cons.IH [of ?st1] Minimize by simp
  next
    case (Maximize f x dx k n)
    let ?st1 = "snd (maximize_discrete_stepwise_cpp f x st dx k n)"
    have "grows (\<lambda>a. fneg (f a)) st ?st1"
      by (rule maximize_grows [OF prod.collapse [symmetric]])
    from grows_log [OF this Cons.prems]
    have "distinct (evaluations ?st1) \<and> set (evaluations ?st1) \<subseteq> fst ` set (results_cache ?st1)" .
    then show ?thesis using Cons.IH [of ?st1] Maximize by simp
  qed
qed

text \<open>
  Claim C9. Across a call of the minimiser or of the maximiser, whether it returns a
  point or fails, the cache only gains entries: the cache after the call is the cache
  before it with new entries in front, and every key that had a value before the call
  still has that value after it.
\<close>

theorem cache_only_gains_entries:
  assumes "minimize_discrete_stepwise_cpp fun x st dx search_range maxiter = (r, st') \<or>
           maximize_discrete_stepwise_cpp fun x st dx search_range maxiter = (r, st')"
  shows "(\<exists>new. results_cache st' = new @ results_cache st) \<and>
         (\<forall>key v. map_of (results_cache st) key = Some v \<longrightarrow>
                  map_of (results_cache st') key = Some v)"
proof -
  from assms obtain g where g: "grows g st st'"
    using minimize_grows maximize_grows by blast
  then have "\<exists>new. results_cache st' = new @ results_cache st"
    unfolding grows_def by blast
  with g show ?thesis by (blast intro: grows_keeps)
qed

theorem cache_only_gains_entries_witness:
  "minimize_discrete_stepwise_cpp parabola [0] warm_state [1] 1 5 =
     (Inr [0], \<lparr>results_cache = [([0], Fin 4), ([- 1], Fin 9), ([1], Fin 100)],
                evaluations = [[- 1], [0]]\<rparr>) \<and>
   map_of (results_cache warm_state) [1] = Some (Fin 100) \<and>
   map_of [([0], Fin 4), ([- 1], Fin 9), ([1], Fin 100)] [1::real] = Some (Fin 100)"
proof -
  have run: "minimize_discrete_stepwise_cpp parabola [0] warm_state [1] 1 5 =
     (Inr [0], \<lparr>results_cache = [([0], Fin 4), ([- 1], Fin 9), ([1], Fin 100)],
                evaluations = [[- 1], [0]]\<rparr>)"
    by code_simp
  have before: "map_of (results_cache warm_state) [1] = Some (Fin 100)"
    by (simp add: warm_state_def)
  from cache_only_gains_entries [OF disjI1 [OF run]] before
  have "map_of [([0], Fin 4), ([- 1], Fin 9), ([1], Fin 100)] [1::real] = Some (Fin 100)"
    by (metis state.select_convs(1))
  with run before show ?thesis by blast
qed

text \<open>
  Claim C5. The log of objective calls never holds a point twice. For one call of the
  minimiser or maximiser on a state whose logged points are pairwise different and all
  cached: the points evaluated during the call are appended to the log, none of them had
  a cache entry before the call (a cached point is never evaluated), each is stored
  under its own coordinates with the value the called function returned for it, and the
  log stays free of repetitions. The same holds for any sequence of calls on one cache.
  A lookup with the comparator that does not stop on its assertion finds the entry
  whose key has exactly the coordinates searched for, and no other. The value that the
  evaluation of a candidate hands on is the cached value when the point has one, and
  then the state does not change; it is the computed value otherwise. A scan selects
  among exactly these values.
\<close>

theorem objective_called_once_per_point:
  assumes "distinct (evaluations st)"
    and "set (evaluations st) \<subseteq> fst ` set (results_cache st)"
    and "minimize_discrete_stepwise_cpp fun x st dx search_range maxiter = (r, st') \<and> g = fun \<or>
         maximize_discrete_stepwise_cpp fun x st dx search_range maxiter = (r, st') \<and>
           g = (\<lambda>a. fneg (fun a))"
  shows "distinct (evaluations st') \<and>
         set (evaluations st') \<subseteq> fst ` set (results_cache st') \<and>
         (\<exists>more. evaluations st' = evaluations st @ more \<and>
            (\<forall>key\<in>set more. map_of (results_cache st) key = None \<and>
               map_of (results_cache st') key = Some (g key))) \<and>
         distinct (evaluations (run_calls cs st)) \<and>
         (cache_find c k = Inr found \<longrightarrow> found = map_of c k) \<and>
         (evaluate h s k = (Inr v, s') \<longrightarrow>
            v = value_at h (results_cache s) k \<and>
            (map_of (results_cache s) k \<noteq> None \<longrightarrow> s' = s)) \<and>
         (scan h keys idx s resMin idxMin = (Inr out, s') \<longrightarrow>
            out = select (map (value_at h (results_cache s)) keys) idx resMin idxMin)"
proof -
  from assms(3) have g: "grows g st st'"
    using minimize_grows maximize_grows by blast
  then obtain m where m: "\<forall>k\<in>set m. map_of (results_cache st) k = None"
      "results_cache st' = rev (map (\<lambda>k. (k, g k)) m) @ results_cache st"
      "evaluations st' = evaluations st @ m"
    unfolding grows_def by blast
  have "\<forall>key\<in>set m. map_of (results_cache st') key = Some (g key)"
    using m(2) by (simp add: map_of_graph map_add_def)
  with m have "\<exists>more. evaluations st' = evaluations st @ more \<and>
      (\<forall>key\<in>set more. map_of (results_cache st) key = None \<and>
         map_of (results_cache st') key = Some (g key))"
    by blast
  moreover have "cache_find c k = Inr found \<longrightarrow> found = map_of c k"
    using cache_find_map_of by blast
  moreover have "evaluate h s k = (Inr v, s') \<longrightarrow>
      v = value_at h (results_cache s) k \<and> (map_of (results_cache s) k \<noteq> None \<longrightarrow> s' = s)"
    using evaluate_value by blast
  moreover have "scan h keys idx s resMin idxMin = (Inr out, s') \<longrightarrow>
      out = select (map (value_at h (results_cache s)) keys) idx resMin idxMin"
    using scan_values by blast
  ultimately show ?thesis
    using grows_log [OF g assms(1,2)] run_calls_log [OF assms(1,2), of cs] by blast
qed

theorem objective_called_once_per_point_witness:
  "distinct (evaluations warm_state) \<and>
   set (evaluations warm_state) \<subseteq> fst ` set (results_cache warm_state) \<and>
   minimize_discrete_stepwise_cpp parabola [0] warm_state [1] 1 5 =
     (Inr [0], \<lparr>results_cache = [([0], Fin 4), ([- 1], Fin 9), ([1], Fin 100)],
                evaluations = [[- 1], [0]]\<rparr>) \<and>
   distinct [[- 1], [0::real]] \<and>
   distinct (evaluations (run_calls
     [Minimize parabola [0] [1] 1 5, Maximize parabola [0] [1] 1 5] warm_state)) \<and>
   evaluate parabola warm_state [1] = (Inr (Fin 100), warm_state) \<and>
   value_at parabola (results_cache warm_state) [1] = Fin 100 \<and>
   scan parabola [[- 1], [0], [1]] 0 warm_state FLT_MAX (- 1) =
     (Inr (Fin 4, 1), \<lparr>results_cache = [([0], Fin 4), ([- 1], Fin 9), ([1], Fin 100)],
                        evaluations = [[- 1], [0]]\<rparr>) \<and>
   select (map (value_at parabola (results_cache warm_state)) [[- 1], [0], [1]])
     0 FLT_MAX (- 1) = (Fin 4, 1)"
proof -
  have run: "minimize_discrete_stepwise_cpp parabola [0] warm_state [1] 1 5 =
     (Inr [0], \<lparr>results_cache = [([0], Fin 4), ([- 1], Fin 9), ([1], Fin 100)],
                evaluations = [[- 1], [0]]\<rparr>)"
    by code_simp
  have d: "distinct (evaluations warm_state)"
    and s: "set (evaluations warm_state) \<subseteq> fst ` set (results_cache warm_state)"
    by (simp_all add: warm_state_def)
  have ev: "evaluate parabola warm_state [1] = (Inr (Fin 100), warm_state)"
    by code_simp
  have sc: "scan parabola [[- 1], [0], [1]] 0 warm_state FLT_MAX (- 1) =
     (Inr (Fin 4, 1), \<lparr>results_cache = [([0], Fin 4), ([- 1], Fin 9), ([1], Fin 100)],
                        evaluations = [[- 1], [0]]\<rparr>)"
    by code_simp
  note inst = objective_called_once_per_point [OF d s disjI1 [OF conjI [OF run refl]],
      where cs = "[Minimize parabola [0] [1] 1 5, Maximize parabola [0] [1] 1 5]"
        and h = parabola and s = warm_state and k = "[1]" and v = "Fin 100"
        and s' = warm_state]
  from inst have "distinct [[- 1], [0::real]] \<and> distinct (evaluations (run_calls
     [Minimize parabola [0] [1] 1 5, Maximize parabola [0] [1] 1 5] warm_state))"
    by simp
  moreover from inst ev have "value_at parabola (results_cache warm_state) [1] = Fin 100"
    by simp
  moreover from objective_called_once_per_point [OF d s disjI1 [OF conjI [OF run refl]],
      where h = parabola and s = warm_state and keys = "[[- 1], [0], [1]]" and idx = 0
        and resMin = FLT_MAX and idxMin = "- 1" and out = "(Fin 4, 1)"
        and s' = "\<lparr>results_cache = [([0], Fin 4), ([- 1], Fin 9), ([1], Fin 100)],
                        evaluations = [[- 1], [0]]\<rparr>"] sc
  have "select (map (value_at parabola (results_cache warm_state)) [[- 1], [0], [1]])
     0 FLT_MAX (- 1) = (Fin 4, 1)"
    by simp
  ultimately show ?thesis using run d s ev sc by blast
qed

subsection \<open>Shape of the lattice\<close>

lemma length_dxArMg: "length (dxArMg dx search_range) = sizeMg search_range (length dx)"
  by (simp add: dxArMg_def)

lemma length_dxArMg_row: "row \<in> set (dxArMg dx search_range) \<Longrightarrow> length row = length dx"
  by (auto simp: dxArMg_def)

lemma int_sizeMg:
  "sizes_representable search_range d \<Longrightarrow> int (sizeMg search_range d) = (2 * search_range + 1) ^ d"
  by (simp add: sizes_representable_def sizeMg_def)


subsection \<open>Selection\<close>






subsection \<open>Parameter parsing\<close>

text \<open>
  Claim C7. A point of one coordinate, given with a step vector of at least one
  coordinate, is replaced by a vector of the step vector's length that repeats the
  coordinate; a step vector of one coordinate, given with a point of at least one
  coordinate, is replaced in the same way by a vector of the point's length. So the
  point \<open>[2]\<close> with the steps \<open>[0.5, 0.5, 0.5]\<close> becomes \<open>[2, 2, 2]\<close>, and the step \<open>[0.1]\<close>
  with the point \<open>[1, 2]\<close> becomes \<open>[0.1, 0.1]\<close>.
\<close>

theorem parse_parameters_broadcast:
  "(length x = 1 \<and> 0 < length dx \<longrightarrow>
      parse_parameters x dx = (replicate (length dx) (x ! 0), dx)) \<and>
   (length dx = 1 \<and> 0 < length x \<longrightarrow>
      parse_parameters x dx = (x, replicate (length x) (dx ! 0)))"
proof (intro conjI impI)
  assume "length x = 1 \<and> 0 < length dx"
  then show "parse_parameters x dx = (replicate (length dx) (x ! 0), dx)"
    by (simp add: parse_parameters_def)
next
  assume a: "length dx = 1 \<and> 0 < length x"
  show "parse_parameters x dx = (x, replicate (length x) (dx ! 0))"
  proof (cases "length x = 1")
    case True
    with a obtain p s where "x = [p]" "dx = [s]"
      by (metis One_nat_def length_0_conv length_Suc_conv)
    then show ?thesis by (simp add: parse_parameters_def)
  next
    case False
    with a show ?thesis by (simp add: parse_parameters_def)
  qed
qed

theorem parse_parameters_broadcast_witness:
  "(length [2::real] = 1 \<and> 0 < length [1/2, 1/2, 1/2 :: real]) \<and>
   parse_parameters [2] [1/2, 1/2, 1/2] = ([2, 2, 2], [1/2, 1/2, 1/2]) \<and>
   (length [1/10 :: real] = 1 \<and> 0 < length [1, 2 :: real]) \<and>
   parse_parameters [1, 2] [1/10] = ([1, 2], [1/10, 1/10])"
  using parse_parameters_broadcast [of "[2]" "[1/2, 1/2, 1/2]"]
    parse_parameters_broadcast [of "[1, 2]" "[1/10]"]
  by (simp add: numeral_3_eq_3 numeral_2_eq_2)

subsection \<open>The maximiser\<close>

text \<open>
  Claim C8. The maximiser gives what the minimiser gives for the negated objective
  \<open>x \<mapsto> -f(x)\<close> and the same other arguments: the same point or the same failure, and
  the same state. Called on an empty cache, it leaves a cache that holds exactly the
  points evaluated during the call, each with the negated value \<open>-f(point)\<close>.
\<close>

theorem maximize_is_minimize_of_negation:
  "maximize_discrete_stepwise_cpp fun x st dx search_range maxiter =
     minimize_discrete_stepwise_cpp (\<lambda>a. fneg (fun a)) x st dx search_range maxiter \<and>
   (results_cache st = [] \<longrightarrow>
     (\<exists>more. evaluations (snd (maximize_discrete_stepwise_cpp fun x st dx search_range maxiter))
               = evaluations st @ more \<and>
        results_cache (snd (maximize_discrete_stepwise_cpp fun x st dx search_range maxiter))
               = rev (map (\<lambda>key. (key, fneg (fun key))) more)))"
proof -
  let ?run = "maximize_discrete_stepwise_cpp fun x st dx search_range maxiter"
  have "grows (\<lambda>a. fneg (fun a)) st (snd ?run)"
    by (rule maximize_grows [OF prod.collapse [symmetric]])
  then obtain m where "results_cache (snd ?run) =
      rev (map (\<lambda>k. (k, fneg (fun k))) m) @ results_cache st"
      "evaluations (snd ?run) = evaluations st @ m"
    unfolding grows_def by blast
  then show ?thesis by (auto simp: maximize_discrete_stepwise_cpp_def)
qed

theorem maximize_is_minimize_of_negation_witness:
  "results_cache empty_state = [] \<and>
   maximize_discrete_stepwise_cpp parabola [0] empty_state [1] 1 2 =
     (Inl (NonConvergence [- 2]),
      \<lparr>results_cache = [([- 2], Fin (- 16)), ([1], Fin (- 1)), ([0], Fin (- 4)),
                        ([- 1], Fin (- 9))],
       evaluations = [[- 1], [0], [1], [- 2]]\<rparr>) \<and>
   minimize_discrete_stepwise_cpp (\<lambda>a. fneg (parabola a)) [0] empty_state [1] 1 2 =
     (Inl (NonConvergence [- 2]),
      \<lparr>results_cache = [([- 2], Fin (- 16)), ([1], Fin (- 1)), ([0], Fin (- 4)),
                        ([- 1], Fin (- 9))],
       evaluations = [[- 1], [0], [1], [- 2]]\<rparr>)"
proof -
  have e: "results_cache empty_state = []" by (simp add: empty_state_def)
  have run: "maximize_discrete_stepwise_cpp parabola [0] empty_state [1] 1 2 =
     (Inl (NonConvergence [- 2]),
      \<lparr>results_cache = [([- 2], Fin (- 16)), ([1], Fin (- 1)), ([0], Fin (- 4)),
                        ([- 1], Fin (- 9))],
       evaluations = [[- 1], [0], [1], [- 2]]\<rparr>)"
    by code_simp
  from maximize_is_minimize_of_negation [of parabola "[0]" empty_state "[1]" 1 2] run e
  show ?thesis by simp
qed

subsection \<open>Arithmetic of the lattice\<close>

lemma searchRangeValue_level:
  assumes "0 \<le> k" and "k < 2 ^ 30" and "0 < r" and "r * (2 * k + 1) \<le> INT_MAX"
  shows "searchRangeValue i r k = (int i mod (r * (2 * k + 1))) div r - k"
proof -
  let ?R = "r * (2 * k + 1)"
  let ?q = "(int i mod ?R) div r"
  from assms have R: "0 < ?R" "?R < 2 ^ 64" by (simp_all add: INT_MAX_def)
  from assms(1,3) have "r * 1 \<le> ?R" by (intro mult_left_mono) simp_all
  then have "r \<le> ?R" by simp
  from this R(2) have "r < 2 ^ 64" by (rule le_less_trans)
  with assms(3) have r: "0 \<le> r" "r < 2 ^ 64" by simp_all
  have sR: "to_size_t ?R = ?R" unfolding to_size_t_def
    using R by (intro take_bit_int_eq_self) simp_all
  have sr: "to_size_t r = r" unfolding to_size_t_def
    using r by (intro take_bit_int_eq_self) simp_all
  have sk: "to_size_t k = k" unfolding to_size_t_def
    using assms(1,2) by (intro take_bit_int_eq_self) simp_all
  from R have m: "0 \<le> int i mod ?R" "int i mod ?R < ?R" by simp_all
  from m(1) assms(3) have q0: "0 \<le> ?q" by (simp add: pos_imp_zdiv_nonneg_iff)
  have "r * ?q + (int i mod ?R) mod r = int i mod ?R" by simp
  moreover from assms(3) have "0 \<le> (int i mod ?R) mod r" by simp
  ultimately have "r * ?q \<le> int i mod ?R" by linarith
  with m(2) have "r * ?q < r * (2 * k + 1)" by linarith
  with assms(3) have "?q < 2 * k + 1" by (simp add: mult_less_cancel_left_pos)
  with q0 assms(2) have "- (2 ^ 31) \<le> ?q - k" "?q - k < 2 ^ 31" using assms(1) by simp_all
  then have "to_int (to_size_t (?q - k)) = ?q - k"
    unfolding to_int_def to_size_t_def
    by (simp add: signed_take_bit_take_bit signed_take_bit_int_eq_self)
  then show ?thesis by (simp add: searchRangeValue_def sR sr sk)
qed


lemma dxArMg_nth:
  assumes "0 \<le> k" and "sizes_representable k (length dx)"
    and "i < sizeMg k (length dx)" and "j < length dx"
  shows "dxArMg dx k ! i ! j = dx ! j * real_of_int
    ((int i mod ((2 * k + 1) ^ (length dx - j - 1) * (2 * k + 1)))
       div (2 * k + 1) ^ (length dx - j - 1) - k)"
proof -
  let ?B = "2 * k + 1"
  let ?r = "?B ^ (length dx - j - 1)"
  from assms(1) have B: "1 \<le> ?B" by simp
  then have r: "0 < ?r" by simp
  from assms(4) have "length dx - j = Suc (length dx - j - 1)" by simp
  then have "?B ^ (length dx - j) = ?B ^ Suc (length dx - j - 1)" by (rule arg_cong)
  also have "\<dots> = ?r * ?B" by (rule power_Suc2)
  finally have "?r * ?B = ?B ^ (length dx - j)" by (rule sym)
  also from B have "\<dots> \<le> ?B ^ length dx" by (intro power_increasing) simp_all
  also from assms(2) have "\<dots> \<le> INT_MAX" by (simp add: sizes_representable_def)
  finally have R: "?r * ?B \<le> INT_MAX" .
  from assms(2) have k: "k < 2 ^ 30" by (simp add: sizes_representable_def)
  from assms(3,4) have "dxArMg dx k ! i ! j =
      dx ! j * real_of_int (searchRangeValue i ?r k)"
    by (simp add: dxArMg_def ranges_def)
  with searchRangeValue_level [OF assms(1) k r R] show ?thesis by simp
qed

lemma digits_determine:
  fixes a b B :: int
  assumes "0 < B"
    and "\<forall>e<d. (a mod B ^ Suc e) div B ^ e = (b mod B ^ Suc e) div B ^ e"
  shows "a mod B ^ d = b mod B ^ d"
  using assms(2)
proof (induction d)
  case 0
  show ?case by simp
next
  case (Suc d)
  then have ih: "a mod B ^ d = b mod B ^ d" by simp
  from Suc.prems have top: "(a mod B ^ Suc d) div B ^ d = (b mod B ^ Suc d) div B ^ d"
    by simp
  have split: "c mod B ^ Suc d = (c mod B ^ Suc d) div B ^ d * B ^ d + c mod B ^ d" for c
  proof -
    have "(c mod B ^ Suc d) mod B ^ d = c mod B ^ d"
      by (rule mod_mod_cancel) simp
    then show ?thesis
      by (metis div_mult_mod_eq)
  qed
  have "a mod B ^ Suc d = (a mod B ^ Suc d) div B ^ d * B ^ d + a mod B ^ d"
    by (rule split)
  also have "\<dots> = (b mod B ^ Suc d) div B ^ d * B ^ d + b mod B ^ d"
    by (simp only: top ih)
  also have "\<dots> = b mod B ^ Suc d"
    by (rule split [symmetric])
  finally show ?case .
qed

lemma center_step:
  fixes k :: int
  shows "((2 * k + 1) ^ Suc d - 1) div 2 = k * (2 * k + 1) ^ d + ((2 * k + 1) ^ d - 1) div 2"
proof -
  have "(2 * k + 1) ^ Suc d - 1 = 2 * (k * (2 * k + 1) ^ d) + ((2 * k + 1) ^ d - 1)"
    by (simp add: algebra_simps)
  then show ?thesis by simp
qed

lemma center_bounds:
  fixes k :: int
  assumes "0 \<le> k"
  shows "0 \<le> ((2 * k + 1) ^ d - 1) div 2 \<and> ((2 * k + 1) ^ d - 1) div 2 < (2 * k + 1) ^ d"
proof -
  from assms have "1 \<le> (2 * k + 1) ^ d" by simp
  then show ?thesis by linarith
qed

lemma center_digits:
  fixes k :: int
  assumes "0 \<le> k"
  shows "e < d \<Longrightarrow> ((((2 * k + 1) ^ d - 1) div 2) mod (2 * k + 1) ^ Suc e) div (2 * k + 1) ^ e = k"
proof (induction d)
  case 0
  then show ?case by simp
next
  case (Suc d)
  let ?B = "2 * k + 1"
  let ?c = "(?B ^ d - 1) div 2"
  from assms have B: "0 < ?B" by simp
  note cb = center_bounds [OF assms, of d]
  show ?case
  proof (cases "e < d")
    case True
    then have "Suc e \<le> d" by simp
    then have "?B ^ Suc e dvd ?B ^ d" by (rule le_imp_power_dvd)
    then have "?B ^ Suc e dvd k * ?B ^ d" by (rule dvd_mult)
    then have "(k * ?B ^ d) mod ?B ^ Suc e = 0" by (simp only: mod_eq_0_iff_dvd)
    then have "(k * ?B ^ d + ?c) mod ?B ^ Suc e = (0 + ?c) mod ?B ^ Suc e"
      by (metis mod_add_left_eq)
    then have "(k * ?B ^ d + ?c) mod ?B ^ Suc e = ?c mod ?B ^ Suc e"
      by (simp only: add_0_left)
    with Suc.IH [OF True] show ?thesis by (simp only: center_step)
  next
    case False
    with Suc.prems have e: "e = d" by simp
    from cb B have small: "0 \<le> k * ?B ^ d + ?c" "k * ?B ^ d + ?c < ?B ^ Suc d"
      using center_bounds [OF assms, of "Suc d"] by (simp_all only: center_step)
    then have "(k * ?B ^ d + ?c) mod ?B ^ Suc d = k * ?B ^ d + ?c" by simp
    moreover from cb B have "(k * ?B ^ d + ?c) div ?B ^ d = k" by simp
    ultimately show ?thesis using e by (simp only: center_step)
  qed
qed

subsection \<open>The rows of the lattice\<close>

lemma dxArMg_digit:
  assumes "0 \<le> k" and "sizes_representable k (length dx)"
    and "i < sizeMg k (length dx)" and "e < length dx"
  shows "dxArMg dx k ! i ! (length dx - e - 1) = dx ! (length dx - e - 1) * real_of_int
    ((int i mod (2 * k + 1) ^ Suc e) div (2 * k + 1) ^ e - k)"
proof -
  let ?j = "length dx - e - 1"
  from assms(4) have j: "?j < length dx" and e: "length dx - ?j - 1 = e" by simp_all
  from dxArMg_nth [OF assms(1,2,3) j] show ?thesis
    by (simp only: e power_Suc2)
qed

lemma center_row:
  assumes "0 \<le> k" and "sizes_representable k (length dx)"
  shows "dxArMg dx k ! nat (((2 * k + 1) ^ length dx - 1) div 2) = replicate (length dx) 0"
proof -
  let ?d = "length dx"
  let ?c = "((2 * k + 1) ^ ?d - 1) div 2"
  note cb = center_bounds [OF assms(1), of ?d]
  from cb assms(2) have c: "nat ?c < sizeMg k ?d"
    by (simp add: sizeMg_def sizes_representable_def nat_less_iff)
  then have "dxArMg dx k ! nat ?c \<in> set (dxArMg dx k)"
    by (simp add: length_dxArMg)
  then have len: "length (dxArMg dx k ! nat ?c) = ?d" by (rule length_dxArMg_row)
  from cb have ic: "int (nat ?c) = ?c" by simp
  have zero: "dxArMg dx k ! nat ?c ! j = 0" if "j < ?d" for j
  proof -
    from that have e: "?d - j - 1 < ?d" and je: "?d - (?d - j - 1) - 1 = j" by simp_all
    from dxArMg_digit [OF assms c e]
    have "dxArMg dx k ! nat ?c ! j = dx ! j * real_of_int
        ((int (nat ?c) mod (2 * k + 1) ^ Suc (?d - j - 1)) div (2 * k + 1) ^ (?d - j - 1) - k)"
      by (simp only: je)
    then show ?thesis
      by (simp only: ic center_digits [OF assms(1) e] diff_self of_int_0 mult_zero_right)
  qed
  show ?thesis
  proof (rule nth_equalityI)
    show "length (dxArMg dx k ! nat ?c) = length (replicate ?d (0::real))"
      by (simp only: len length_replicate)
  next
    fix j assume "j < length (dxArMg dx k ! nat ?c)"
    then have j: "j < ?d" by (simp only: len)
    then have "replicate ?d (0::real) ! j = 0" by (rule nth_replicate)
    with zero [OF j] show "dxArMg dx k ! nat ?c ! j = replicate ?d 0 ! j" by (rule trans [OF _ sym])
  qed
qed

lemma zero_row_center:
  assumes "0 \<le> k" and "sizes_representable k (length dx)"
    and "\<forall>c\<in>set dx. c \<noteq> 0"
    and "i < sizeMg k (length dx)" and "dxArMg dx k ! i = replicate (length dx) 0"
  shows "i = nat (((2 * k + 1) ^ length dx - 1) div 2)"
proof -
  let ?d = "length dx"
  let ?B = "2 * k + 1"
  let ?c = "(?B ^ ?d - 1) div 2"
  from assms(1) have B: "0 < ?B" by simp
  note cb = center_bounds [OF assms(1), of ?d]
  have "\<forall>e<?d. (int i mod ?B ^ Suc e) div ?B ^ e = (?c mod ?B ^ Suc e) div ?B ^ e"
  proof (intro allI impI)
    fix e assume e: "e < ?d"
    then have j: "?d - e - 1 < ?d" by simp
    with assms(3) have nz: "dx ! (?d - e - 1) \<noteq> 0" by simp
    from assms(5) j have "dxArMg dx k ! i ! (?d - e - 1) = 0" by simp
    with dxArMg_digit [OF assms(1,2,4) e] nz
    have "(int i mod ?B ^ Suc e) div ?B ^ e = k" by simp
    with center_digits [OF assms(1) e]
    show "(int i mod ?B ^ Suc e) div ?B ^ e = (?c mod ?B ^ Suc e) div ?B ^ e" by simp
  qed
  with B have "int i mod ?B ^ ?d = ?c mod ?B ^ ?d" by (rule digits_determine)
  moreover from assms(2,4) have "int i < ?B ^ ?d"
    by (simp add: sizeMg_def sizes_representable_def)
  ultimately have "int i = ?c" using cb by simp
  then show ?thesis by simp
qed

text \<open>
  Claim C6, as far as it holds. For a search range \<open>k \<ge> 0\<close> and a step vector of length
  \<open>d\<close> whose lattice size \<open>(2k+1)^d\<close> fits an \<^verbatim>\<open>int\<close>: the lattice has \<open>(2k+1)^d\<close> rows of
  length \<open>d\<close>; the coordinate \<open>j\<close> of row \<open>i\<close> is the step \<open>j\<close> times the level
  \<open>(i mod (range_j * (2k+1))) / range_j - k\<close> with \<open>range_j = (2k+1)^(d-j-1)\<close>; the row
  in the middle, of index \<open>((2k+1)^d - 1) / 2\<close>, is all zero; and when no step is zero
  it is the only row that is all zero.
\<close>

theorem neighbour_lattice:
  assumes "0 \<le> k" and "sizes_representable k (length dx)"
  shows "int (length (dxArMg dx k)) = (2 * k + 1) ^ length dx \<and>
    (\<forall>i<length (dxArMg dx k). length (dxArMg dx k ! i) = length dx \<and>
       (\<forall>j<length dx. dxArMg dx k ! i ! j = dx ! j * real_of_int
          ((int i mod ((2 * k + 1) ^ (length dx - j - 1) * (2 * k + 1)))
             div (2 * k + 1) ^ (length dx - j - 1) - k))) \<and>
    nat (((2 * k + 1) ^ length dx - 1) div 2) < length (dxArMg dx k) \<and>
    dxArMg dx k ! nat (((2 * k + 1) ^ length dx - 1) div 2) = replicate (length dx) 0 \<and>
    ((\<forall>c\<in>set dx. c \<noteq> 0) \<longrightarrow>
       (\<forall>i<length (dxArMg dx k). dxArMg dx k ! i = replicate (length dx) 0 \<longrightarrow>
          i = nat (((2 * k + 1) ^ length dx - 1) div 2)))"
proof (intro conjI allI impI)
  show "int (length (dxArMg dx k)) = (2 * k + 1) ^ length dx"
    using assms(2) by (simp add: length_dxArMg int_sizeMg)
next
  fix i assume "i < length (dxArMg dx k)"
  then have "dxArMg dx k ! i \<in> set (dxArMg dx k)" by (rule nth_mem)
  then show "length (dxArMg dx k ! i) = length dx"
    by (rule length_dxArMg_row)
next
  fix i j assume "i < length (dxArMg dx k)" and "j < length dx"
  then show "dxArMg dx k ! i ! j = dx ! j * real_of_int
      ((int i mod ((2 * k + 1) ^ (length dx - j - 1) * (2 * k + 1)))
         div (2 * k + 1) ^ (length dx - j - 1) - k)"
    using dxArMg_nth [OF assms] by (simp add: length_dxArMg)
next
  from center_bounds [OF assms(1), of "length dx"] assms(2)
  show "nat (((2 * k + 1) ^ length dx - 1) div 2) < length (dxArMg dx k)"
    by (simp add: length_dxArMg sizeMg_def sizes_representable_def nat_less_iff)
next
  show "dxArMg dx k ! nat (((2 * k + 1) ^ length dx - 1) div 2) = replicate (length dx) 0"
    using assms by (rule center_row)
next
  fix i assume "\<forall>c\<in>set dx. c \<noteq> 0" and "i < length (dxArMg dx k)"
    and "dxArMg dx k ! i = replicate (length dx) 0"
  then show "i = nat (((2 * k + 1) ^ length dx - 1) div 2)"
    using zero_row_center [OF assms] by (simp add: length_dxArMg)
qed

theorem neighbour_lattice_witness:
  "(0::int) \<le> 1 \<and> sizes_representable 1 (length [1, 10 :: real]) \<and>
   dxArMg [1, 10] 1 =
     [[- 1, - 10], [- 1, 0], [- 1, 10], [0, - 10], [0, 0], [0, 10], [1, - 10], [1, 0], [1, 10]] \<and>
   int (length (dxArMg [1, 10] 1)) = (2 * 1 + 1) ^ length [1, 10 :: real] \<and>
   dxArMg [1, 10] 1 ! nat (((2 * 1 + 1) ^ length [1, 10 :: real] - 1) div 2) =
     replicate (length [1, 10 :: real]) 0"
proof -
  have k: "(0::int) \<le> 1" by simp
  have rep: "sizes_representable 1 (length [1, 10 :: real])"
    by (simp add: sizes_representable_def INT_MAX_def)
  have rows: "dxArMg [1, 10] 1 =
     [[- 1, - 10], [- 1, 0], [- 1, 10], [0, - 10], [0, 0], [0, 10], [1, - 10], [1, 0], [1, 10]]"
    by code_simp
  from neighbour_lattice [OF k rep] rows k rep show ?thesis by blast
qed

text \<open>
  With a zero step the all-zero offset is not unique: for the step vector \<open>[0]\<close> and
  search range 1 each of the three rows is \<open>[0]\<close>.
\<close>

theorem zero_offset_repeated_counterexample:
  "sizes_representable 1 (length [0::real]) \<and>
   dxArMg [0] 1 = [[0], [0], [0]] \<and>
   count_list (dxArMg [0] 1) (replicate (length [0::real]) 0) = 3"
  by (simp add: sizes_representable_def INT_MAX_def dxArMg_def sizeMg_def ranges_def
      searchRangeValue_def to_int_def to_size_t_def upt_conv_Cons)

subsection \<open>Convergence\<close>

lemma parse_parameters_steps: "set (snd (parse_parameters x dx)) \<subseteq> set dx"
proof (cases "length dx = 1")
  case True
  then obtain s where "dx = [s]"
    by (metis One_nat_def length_0_conv length_Suc_conv)
  then show ?thesis by (auto simp: parse_parameters_def)
next
  case False
  then show ?thesis by (simp add: parse_parameters_def)
qed

lemma tiny_multiple:
  fixes c p :: real
  assumes "c = 0 \<or> p < \<bar>c\<bar>" and "\<bar>c * real_of_int s\<bar> \<le> p"
  shows "c * real_of_int s = 0"
proof (rule ccontr)
  assume nz: "c * real_of_int s \<noteq> 0"
  then have c: "c \<noteq> 0" and s: "s \<noteq> 0" by auto
  from s have "1 \<le> \<bar>s\<bar>" by linarith
  then have "1 \<le> \<bar>real_of_int s\<bar>" by (metis of_int_1_le_iff of_int_abs)
  then have "\<bar>c\<bar> * 1 \<le> \<bar>c\<bar> * \<bar>real_of_int s\<bar>" by (intro mult_left_mono) simp_all
  then have "\<bar>c\<bar> \<le> \<bar>c * real_of_int s\<bar>" by (simp add: abs_mult)
  with assms c show False by linarith
qed

lemma isZero_row:
  assumes "\<forall>c\<in>set dx. c = 0 \<or> dummy_precision < \<bar>c\<bar>"
    and "row \<in> set (dxArMg dx k)" and "isZero row"
  shows "row = replicate (length dx) 0"
proof -
  from assms(2) obtain i where row: "row = map (\<lambda>j. dx ! j *
      real_of_int (searchRangeValue i (ranges k (length dx) ! j) k)) [0..<length dx]"
    by (auto simp: dxArMg_def)
  have "row ! j = 0" if "j < length dx" for j
  proof -
    from that row have rj: "row ! j = dx ! j *
        real_of_int (searchRangeValue i (ranges k (length dx) ! j) k)" by simp
    from that row have "row ! j \<in> set row" by simp
    with assms(3) have "\<bar>row ! j\<bar> \<le> dummy_precision"
      by (simp add: isZero_def list_all_iff)
    moreover from that assms(1) have "dx ! j = 0 \<or> dummy_precision < \<bar>dx ! j\<bar>" by simp
    ultimately show ?thesis unfolding rj by (intro tiny_multiple)
  qed
  moreover from row have "length row = length dx" by simp
  ultimately show ?thesis by (simp add: list_eq_iff_nth_eq)
qed

lemma isZero_replicate: "isZero (replicate n 0)"
  by (simp add: isZero_def list_all_iff dummy_precision_def)


text \<open>
  Above the tolerance the loop breaks only on an all-zero row. If every step is zero or
  greater in magnitude than the tolerance of \<^verbatim>\<open>isZero()\<close> and the minimiser returns a
  point, then the point is the current point \<open>xl\<close> of the last iteration with zero added
  to each coordinate, and no candidate of that iteration, \<open>xl\<close> plus a row of the lattice,
  has a value below the value of the returned point.
\<close>

lemma minimum_of_last_iteration:
  assumes "\<forall>c\<in>set dx. c = 0 \<or> dummy_precision < \<bar>c\<bar>"
    and "minimize_discrete_stepwise_cpp fun x st dx search_range maxiter = (Inr p, st')"
  shows "\<exists>xl. p = map2 float_add (replicate (length xl) 0) xl \<and>
    (\<exists>vp. map_of (results_cache st') p = Some vp \<and>
      (\<forall>off\<in>set (dxArMg (snd (parse_parameters x dx)) search_range).
         \<exists>v. map_of (results_cache st') (map2 float_add off xl) = Some v \<and>
           \<not> flt_less v vp))"
proof -
  obtain x1 dx1 where pp: "parse_parameters x dx = (x1, dx1)"
    by (cases "parse_parameters x dx")
  let ?dxAr = "dxArMg dx1 search_range"
  from assms(2) pp have "descent fun ?dxAr (nat maxiter) x1 st = (Inr p, st')"
    by (simp add: minimize_discrete_stepwise_cpp_def split: if_splits)
  then obtain xl stl i where it: "iteration fun ?dxAr xl stl = (Inr i, st')"
    and z: "isZero (?dxAr ! i)" and p: "p = xMg ?dxAr xl ! i"
    using descent_returns by blast
  from iteration_selected [OF it] obtain m where i: "i < length ?dxAr"
    and sizes: "list_all (\<lambda>row. length row = length xl) ?dxAr"
    and m: "map_of (results_cache st') (xMg ?dxAr xl ! i) = Some m"
    and least: "\<forall>key\<in>set (xMg ?dxAr xl).
      \<exists>v. map_of (results_cache st') key = Some v \<and> \<not> flt_less v m"
    by blast
  from i have mem: "?dxAr ! i \<in> set ?dxAr" by simp
  from pp parse_parameters_steps [of x dx] assms(1)
  have "\<forall>c\<in>set dx1. c = 0 \<or> dummy_precision < \<bar>c\<bar>" by auto
  from isZero_row [OF this mem z] have row: "?dxAr ! i = replicate (length dx1) 0" .
  from sizes mem have "length (?dxAr ! i) = length xl" by (simp add: list_all_iff)
  with row have "?dxAr ! i = replicate (length xl) 0" by simp
  with p i have px: "p = map2 float_add (replicate (length xl) 0) xl" by (simp add: xMg_def)
  have nb: "\<forall>off\<in>set ?dxAr.
      \<exists>v. map_of (results_cache st') (map2 float_add off xl) = Some v \<and> \<not> flt_less v m"
  proof
    fix off assume "off \<in> set ?dxAr"
    then have "map2 float_add off xl \<in> set (xMg ?dxAr xl)" by (simp add: xMg_def)
    with least
    show "\<exists>v. map_of (results_cache st') (map2 float_add off xl) = Some v \<and> \<not> flt_less v m"
      by simp
  qed
  from m p have vp: "map_of (results_cache st') p = Some m" by simp
  from pp have eq: "snd (parse_parameters x dx) = dx1" by simp
  show ?thesis unfolding eq using px vp nb by blast
qed

text \<open>
  Claim C1 says that a point returned by the minimiser has no lattice neighbour with a
  smaller value. The program breaks this when a step is not above the tolerance of
  \<^verbatim>\<open>isZero()\<close>. For the step \<open>2^-20\<close>, the objective \<open>x[0]\<close>, the start \<open>[0]\<close> and the
  default search range and iteration limit, the first iteration selects the offset
  \<open>-2^-20\<close>, this row passes \<^verbatim>\<open>isZero()\<close>, and the point \<open>[-2^-20]\<close> is returned. Its
  neighbour \<open>[-2^-19]\<close>, the point plus the first lattice row, has a smaller value and was
  never evaluated.
\<close>

theorem tiny_step_returns_non_minimum:
  "minimize_discrete_stepwise_cpp first_coordinate [0] empty_state [1 / 2 ^ 20] 1 10000 =
     (Inr [- (1 / 2 ^ 20)],
      \<lparr>results_cache = [([1 / 2 ^ 20], Fin (1 / 2 ^ 20)), ([0], Fin 0),
                        ([- (1 / 2 ^ 20)], Fin (- (1 / 2 ^ 20)))],
       evaluations = [[- (1 / 2 ^ 20)], [0], [1 / 2 ^ 20]]\<rparr>) \<and>
   dxArMg (snd (parse_parameters [0] [1 / 2 ^ 20])) 1 ! 0 = [- (1 / 2 ^ 20)] \<and>
   map2 float_add [- (1 / 2 ^ 20)] [- (1 / 2 ^ 20)] = [- (1 / 2 ^ 19)] \<and>
   flt_less (first_coordinate [- (1 / 2 ^ 19)]) (first_coordinate [- (1 / 2 ^ 20)]) \<and>
   map_of [([1 / 2 ^ 20], Fin (1 / 2 ^ 20)), ([0], Fin 0),
           ([- (1 / 2 ^ 20)], Fin (- (1 / 2 ^ 20)))] [- (1 / 2 ^ 19) :: real] = None"
  by code_simp

subsection \<open>Starting at a minimum\<close>

lemma all_zero_replicate: "all_zero row \<longleftrightarrow> row = replicate (length row) 0"
  by (induction row) (auto simp: all_zero_def)




text \<open>
  Where the sums round, the candidates can coincide with the point. At \<open>[2^25]\<close> with the
  step 1 both neighbours round to \<open>2^25\<close>, so all three candidates are the point itself
  and share its value; the row of index 0, with offset \<open>-1\<close>, is selected in every
  iteration, and the call ends without convergence at the point where it started.
\<close>

lemma rounded_candidates_coincide:
  "xMg (dxArMg [1] 1) [2 ^ 25] = [[2 ^ 25], [2 ^ 25], [2 ^ 25]] \<and>
   minimize_discrete_stepwise_cpp far_parabola [2 ^ 25] empty_state [1] 1 3 =
     (Inl (NonConvergence [2 ^ 25]),
      \<lparr>results_cache = [([2 ^ 25], Fin 0)], evaluations = [[2 ^ 25]]\<rparr>)"
  by code_simp

subsection \<open>Failure\<close>

lemma lattice_isZero:
  assumes "\<forall>c\<in>set dx. c = 0 \<or> dummy_precision < \<bar>c\<bar>"
    and "row \<in> set (dxArMg dx k)"
  shows "isZero row \<longleftrightarrow> all_zero row"
proof
  assume "isZero row"
  with assms have "row = replicate (length dx) 0" by (rule isZero_row)
  moreover from assms(2) have "length row = length dx" by (rule length_dxArMg_row)
  ultimately show "all_zero row" by (simp add: all_zero_replicate)
next
  assume "all_zero row"
  then have "row = replicate (length row) 0" by (simp only: all_zero_replicate)
  then show "isZero row" by (metis isZero_replicate)
qed

lemma iteration_index: "iteration fun dxAr x st = (Inr i, st') \<Longrightarrow> dxAr ! i \<in> set dxAr"
  using iteration_selected nth_mem by blast

lemma descent_unconverged:
  assumes "\<forall>row\<in>set dxAr. isZero row \<longleftrightarrow> all_zero row"
  shows "unconverged fun dxAr n x st = Some (xn, stn) \<Longrightarrow>
    descent fun dxAr n x st = (Inl (NonConvergence xn), stn)"
proof (induction n arbitrary: x st)
  case 0
  then show ?case by simp
next
  case (Suc n)
  obtain r1 st1 where it: "iteration fun dxAr x st = (r1, st1)"
    by (cases "iteration fun dxAr x st")
  show ?case
  proof (cases r1)
    case (Inl e)
    with Suc.prems it show ?thesis by simp
  next
    case (Inr i)
    with Suc.prems it have nz: "\<not> all_zero (dxAr ! i)"
      and rest: "unconverged fun dxAr n (xMg dxAr x ! i) st1 = Some (xn, stn)"
      by (simp_all split: if_splits)
    from it Inr have "dxAr ! i \<in> set dxAr" by (simp add: iteration_index)
    with assms nz have "\<not> isZero (dxAr ! i)" by blast
    with Suc.IH [OF rest] it Inr show ?thesis by simp
  qed
qed

lemma descent_converged:
  assumes "\<forall>row\<in>set dxAr. isZero row \<longleftrightarrow> all_zero row"
  shows "descent fun dxAr n x st = (Inr p, st') \<Longrightarrow>
    \<exists>m<n. \<exists>xm stm i. unconverged fun dxAr m x st = Some (xm, stm) \<and>
      iteration fun dxAr xm stm = (Inr i, st') \<and> all_zero (dxAr ! i) \<and>
      p = xMg dxAr xm ! i"
proof (induction n arbitrary: x st)
  case 0
  then show ?case by simp
next
  case (Suc n)
  obtain r1 st1 where it: "iteration fun dxAr x st = (r1, st1)"
    by (cases "iteration fun dxAr x st")
  show ?case
  proof (cases r1)
    case (Inl e)
    with Suc.prems it show ?thesis by simp
  next
    case (Inr i)
    with it have iter: "iteration fun dxAr x st = (Inr i, st1)" by simp
    then have mem: "dxAr ! i \<in> set dxAr" by (rule iteration_index)
    show ?thesis
    proof (cases "isZero (dxAr ! i)")
      case True
      with Suc.prems iter have res: "st' = st1" "p = xMg dxAr x ! i" by simp_all
      from True assms mem have az: "all_zero (dxAr ! i)" by blast
      with iter res have "unconverged fun dxAr 0 x st = Some (x, st) \<and>
          iteration fun dxAr x st = (Inr i, st') \<and> all_zero (dxAr ! i) \<and>
          p = xMg dxAr x ! i"
        by simp
      then show ?thesis by blast
    next
      case False
      with Suc.prems iter
      have "descent fun dxAr n (xMg dxAr x ! i) st1 = (Inr p, st')" by simp
      from Suc.IH [OF this] obtain m xm stm j where m: "m < n"
        "unconverged fun dxAr m (xMg dxAr x ! i) st1 = Some (xm, stm)"
        "iteration fun dxAr xm stm = (Inr j, st')" "all_zero (dxAr ! j)"
        "p = xMg dxAr xm ! j"
        by blast
      from False assms mem have "\<not> all_zero (dxAr ! i)" by blast
      with m(2) iter have "unconverged fun dxAr (Suc m) x st = Some (xm, stm)" by simp
      with m(1,3,4,5) have "Suc m < Suc n \<and>
          unconverged fun dxAr (Suc m) x st = Some (xm, stm) \<and>
          iteration fun dxAr xm stm = (Inr j, st') \<and> all_zero (dxAr ! j) \<and>
          p = xMg dxAr xm ! j"
        by simp
      then show ?thesis by blast
    qed
  qed
qed

text \<open>
  Above the tolerance the loop ends as the convergence test intends. Let every step be
  zero or greater in magnitude than the tolerance of \<^verbatim>\<open>isZero()\<close>. If all \<open>maxiter\<close>
  iterations complete and none selects a candidate whose offset is the all-zero vector,
  the minimiser fails with the error that carries the point reached at the end. It
  returns a point only when, after fewer than \<open>maxiter\<close> such iterations, the next
  iteration selects a candidate whose offset is the all-zero vector; this candidate is
  the point returned.
\<close>

lemma failure_above_tolerance:
  assumes "\<forall>c\<in>set dx. c = 0 \<or> dummy_precision < \<bar>c\<bar>"
    and "parse_parameters x dx = (x1, dx1)"
    and "sizes_representable search_range (length dx1)"
  shows "(unconverged fun (dxArMg dx1 search_range) (nat maxiter) x1 st = Some (xn, stn) \<longrightarrow>
      minimize_discrete_stepwise_cpp fun x st dx search_range maxiter =
        (Inl (NonConvergence xn), stn)) \<and>
    (minimize_discrete_stepwise_cpp fun x st dx search_range maxiter = (Inr p, st') \<longrightarrow>
      (\<exists>n<nat maxiter. \<exists>xm stm i.
         unconverged fun (dxArMg dx1 search_range) n x1 st = Some (xm, stm) \<and>
         iteration fun (dxArMg dx1 search_range) xm stm = (Inr i, st') \<and>
         all_zero (dxArMg dx1 search_range ! i) \<and>
         p = xMg (dxArMg dx1 search_range) xm ! i))"
proof -
  from assms(2,3) have run: "minimize_discrete_stepwise_cpp fun x st dx search_range maxiter =
      descent fun (dxArMg dx1 search_range) (nat maxiter) x1 st"
    by (simp add: minimize_discrete_stepwise_cpp_def)
  from assms(1,2) parse_parameters_steps [of x dx]
  have "\<forall>c\<in>set dx1. c = 0 \<or> dummy_precision < \<bar>c\<bar>" by auto
  then have rows: "\<forall>row\<in>set (dxArMg dx1 search_range). isZero row \<longleftrightarrow> all_zero row"
    using lattice_isZero by blast
  show ?thesis unfolding run
    using descent_unconverged [OF rows] descent_converged [OF rows] by blast
qed

text \<open>
  Claim C2 says that the minimiser fails when \<open>maxiter\<close> iterations complete without a
  selected offset that is the all-zero vector, and never returns a point that has not
  converged. The program breaks this when a step is not above the tolerance of
  \<^verbatim>\<open>isZero()\<close>. For the step \<open>2^-20\<close>, the objective \<open>x[0]\<close>, the start \<open>[0]\<close> and
  \<open>maxiter = 1\<close>, the one iteration completes and selects the offset \<open>-2^-20\<close>, which is
  not the all-zero vector; the row passes \<^verbatim>\<open>isZero()\<close>, the loop breaks, and the
  minimiser returns the point \<open>[-2^-20]\<close> instead of failing.
\<close>

theorem tiny_offset_ends_loop:
  "unconverged first_coordinate (dxArMg [1 / 2 ^ 20] 1) (nat 1) [0] empty_state =
     Some ([- (1 / 2 ^ 20)],
      \<lparr>results_cache = [([1 / 2 ^ 20], Fin (1 / 2 ^ 20)), ([0], Fin 0),
                        ([- (1 / 2 ^ 20)], Fin (- (1 / 2 ^ 20)))],
       evaluations = [[- (1 / 2 ^ 20)], [0], [1 / 2 ^ 20]]\<rparr>) \<and>
   dxArMg [1 / 2 ^ 20] 1 ! 0 = [- (1 / 2 ^ 20)] \<and>
   \<not> all_zero [- (1 / 2 ^ 20)] \<and> isZero [- (1 / 2 ^ 20)] \<and>
   minimize_discrete_stepwise_cpp first_coordinate [0] empty_state [1 / 2 ^ 20] 1 1 =
     (Inr [- (1 / 2 ^ 20)],
      \<lparr>results_cache = [([1 / 2 ^ 20], Fin (1 / 2 ^ 20)), ([0], Fin 0),
                        ([- (1 / 2 ^ 20)], Fin (- (1 / 2 ^ 20)))],
       evaluations = [[- (1 / 2 ^ 20)], [0], [1 / 2 ^ 20]]\<rparr>)"
  by code_simp

end
